theory Spec2Isabelle
  imports Complex_Main "HOL-Library.Multiset" "HOL-Library.Product_Lexorder"
begin

section \<open>Autoregressive sampling of the GPT inference notebook\<close>

text \<open>
  The development embeds the two functions of
  \<^verbatim>\<open>notebooks/GPT_model_inference.ipynb\<close>: \<^verbatim>\<open>top_k_logits\<close> and
  \<^verbatim>\<open>sample\<close>.  The notebook calls \<^verbatim>\<open>sample\<close> on a tensor of shape
  \<^verbatim>\<open>(1, t)\<close> (\<^verbatim>\<open>x.unsqueeze(0)\<close>); the embedding follows that single row, so a
  token tensor is an \<^typ>\<open>int list\<close> and the logits of one position are a list of
  scores.
\<close>

subsection \<open>Scores\<close>

text \<open>
  A tensor entry is a real number or one of the three special values of the
  floating-point format.  Arithmetic on the finite values is exact within the range of
  the format and overflows to an infinity beyond it: rounding is not part of the model.
\<close>

datatype score = NegInf | Fin real | PosInf | NaN

text \<open>
  The largest finite value of the single-precision format, the default of the tensor
  library and the format of the tensors of the model.
\<close>

definition max_finite :: real where
  "max_finite = (2 - 1 / 2 ^ 23) * 2 ^ 127"

text \<open>The exceptions that the tensor library raises in the two functions.\<close>

datatype error = RuntimeError | IndexError

text \<open>
  The order in which the tensor library sorts: by value, with \<^const>\<open>NaN\<close> above every
  other entry.
\<close>

fun key :: "score \<Rightarrow> nat \<times> real" where
  "key NegInf = (0, 0)"
| "key (Fin r) = (1, r)"
| "key PosInf = (2, 0)"
| "key NaN = (3, 0)"

instantiation score :: linorder
begin

definition less_eq_score :: "score \<Rightarrow> score \<Rightarrow> bool" where
  "less_eq_score a b = (key a \<le> key b)"

definition less_score :: "score \<Rightarrow> score \<Rightarrow> bool" where
  "less_score a b = (key a < key b)"

instance
proof
  fix x y z :: score
  show "(x < y) = (x \<le> y \<and> \<not> y \<le> x)"
    unfolding less_eq_score_def less_score_def by auto
  show "x \<le> x"
    unfolding less_eq_score_def by simp
  show "x \<le> y \<Longrightarrow> y \<le> z \<Longrightarrow> x \<le> z"
    unfolding less_eq_score_def by simp
  show "x \<le> y \<Longrightarrow> y \<le> x \<Longrightarrow> x = y"
    unfolding less_eq_score_def by (cases x; cases y; simp)
  show "x \<le> y \<or> y \<le> x"
    unfolding less_eq_score_def by auto
qed

end

text \<open>
  The comparison \<^verbatim>\<open>a < b\<close> of two tensor entries: false as soon as one side is
  \<^const>\<open>NaN\<close>.
\<close>

definition lt :: "score \<Rightarrow> score \<Rightarrow> bool" where
  "lt a b = (a \<noteq> NaN \<and> b \<noteq> NaN \<and> a < b)"

text \<open>
  \<^verbatim>\<open>logits / temperature\<close> on one entry.  Division by zero raises nothing on a
  tensor: it gives an infinity of the sign of the entry, and \<^const>\<open>NaN\<close> for \<^verbatim>\<open>0 / 0\<close>.
  A quotient beyond the largest finite value overflows to the infinity of its sign.
\<close>

fun fdiv :: "score \<Rightarrow> real \<Rightarrow> score" where
  "fdiv NaN t = NaN"
| "fdiv (Fin x) t =
     (if t = 0 then
        (if 0 < x then PosInf
         else if x < 0 then NegInf
         else NaN)
      else if max_finite < x / t then PosInf
      else if x / t < - max_finite then NegInf
      else Fin (x / t))"
| "fdiv PosInf t = (if t < 0 then NegInf else PosInf)"
| "fdiv NegInf t = (if t < 0 then PosInf else NegInf)"

fun is_Fin :: "score \<Rightarrow> bool" where
  "is_Fin (Fin r) = True"
| "is_Fin s = False"

subsection \<open>The tensor library\<close>

text \<open>
  Modelled from the spec: \<^verbatim>\<open>torch.topk\<close>, \<^verbatim>\<open>F.softmax\<close> and
  \<^verbatim>\<open>torch.multinomial\<close> belong to the tensor library, which is not part of the
  repository.  They are written here as the plain numeric routines the design notes
  ask for.
\<close>

text \<open>
  Modelled from the spec: the values of \<^verbatim>\<open>torch.topk(logits, k)\<close>, the \<open>k\<close> largest
  entries in descending order.  A \<open>k\<close> outside \<open>0..V\<close> raises.
\<close>

definition topk_values :: "score list \<Rightarrow> int \<Rightarrow> error + score list" where
  "topk_values xs k =
     (if k < 0 \<or> int (length xs) < k then Inl RuntimeError
      else Inr (take (nat k) (rev (sort xs))))"

text \<open>
  Modelled from the spec: the index of \<^verbatim>\<open>torch.topk(probs, k=1)\<close>, a scan that keeps
  the first entry no later entry is greater than (ties broken by lowest vocabulary
  index).
\<close>

fun argmax_from :: "score \<Rightarrow> nat \<Rightarrow> nat \<Rightarrow> score list \<Rightarrow> nat" where
  "argmax_from b bi i [] = bi"
| "argmax_from b bi i (x # xs) =
     (if b < x then argmax_from x i (Suc i) xs else argmax_from b bi (Suc i) xs)"

definition topk1 :: "score list \<Rightarrow> error + nat" where
  "topk1 probs =
     (case probs of [] \<Rightarrow> Inl RuntimeError | p # ps \<Rightarrow> Inr (argmax_from p 0 1 ps))"

text \<open>
  Modelled from the spec: \<^verbatim>\<open>F.softmax\<close>, normalized exponentiation in which an entry at
  negative infinity receives probability 0.  A row holding \<^const>\<open>NaN\<close> or
  \<^const>\<open>PosInf\<close>, and a row of negative infinities only, has no normalization: every
  entry of the result is \<^const>\<open>NaN\<close>.
\<close>

fun expo :: "score \<Rightarrow> real" where
  "expo (Fin r) = exp r"
| "expo s = 0"

definition softmax :: "score list \<Rightarrow> score list" where
  "softmax xs =
     (if (\<exists>x\<in>set xs. x = NaN \<or> x = PosInf) \<or> (\<forall>x\<in>set xs. x = NegInf)
      then map (\<lambda>x. NaN) xs
      else map (\<lambda>x. Fin (expo x / sum_list (map expo xs))) xs)"

text \<open>
  Modelled from the spec: \<^verbatim>\<open>torch.multinomial(probs, num_samples=1)\<close>.  The random
  source is explicit: \<open>u\<close> is the uniform variate of this draw, and the index is read
  off the cumulative sums.  An entry that is not a non-negative number, and a row whose
  sum is not positive, raise.
\<close>

fun valid_prob :: "score \<Rightarrow> bool" where
  "valid_prob (Fin p) = (0 \<le> p)"
| "valid_prob s = False"

fun val :: "score \<Rightarrow> real" where
  "val (Fin p) = p"
| "val s = 0"

fun inv_cdf :: "real \<Rightarrow> real list \<Rightarrow> nat \<Rightarrow> nat" where
  "inv_cdf u [] i = i"
| "inv_cdf u (p # ps) i = (if u < p \<or> ps = [] then i else inv_cdf (u - p) ps (Suc i))"

definition multinomial :: "real \<Rightarrow> score list \<Rightarrow> error + nat" where
  "multinomial u probs =
     (if (\<exists>p\<in>set probs. \<not> valid_prob p) \<or> sum_list (map val probs) \<le> 0
      then Inl RuntimeError
      else Inr (inv_cdf (u * sum_list (map val probs)) (map val probs) 0))"

subsection \<open>\<^verbatim>\<open>top_k_logits\<close>\<close>

text \<open>
  \<^verbatim>\<open>v, ix = torch.topk(logits, k); out = logits.clone();
  out[out < v[:, [-1]]] = -float('Inf')\<close>.  With \<open>k = 0\<close> the row \<open>v\<close> is empty and the
  index \<^verbatim>\<open>-1\<close> is out of bounds.
\<close>

definition top_k_logits :: "score list \<Rightarrow> int \<Rightarrow> error + score list" where
  "top_k_logits logits k =
     (case topk_values logits k of
        Inl e \<Rightarrow> Inl e
      | Inr v \<Rightarrow>
          (if v = [] then Inl IndexError
           else Inr (map (\<lambda>x. if lt x (last v) then NegInf else x) logits)))"

subsection \<open>\<^verbatim>\<open>sample\<close>\<close>

text \<open>
  The model object is used through two members: \<^verbatim>\<open>get_block_size()\<close>, a Python
  integer, and the forward pass (\<^verbatim>\<open>local_forward\<close> followed by
  \<^verbatim>\<open>target_layer\<close>), which maps a context to one row of scores per position.
\<close>

record model =
  get_block_size :: int
  forward :: "int list \<Rightarrow> score list list"

text \<open>
  A slice \<^verbatim>\<open>x[:, s:]\<close>: a negative start counts from the end and is clipped at 0, a
  start beyond the end is clipped to the length.
\<close>

definition slice_from :: "int \<Rightarrow> 'a list \<Rightarrow> 'a list" where
  "slice_from s xs =
     (let n = int (length xs);
          s' = (if s < 0 then max (s + n) 0 else min s n)
      in drop (nat s') xs)"

text \<open>\<^verbatim>\<open>x if x.size(1) <= block_size else x[:, -block_size:]\<close>\<close>

definition x_cond :: "int \<Rightarrow> int list \<Rightarrow> int list" where
  "x_cond block_size x =
     (if int (length x) \<le> block_size then x else slice_from (- block_size) x)"

text \<open>\<^verbatim>\<open>logits[:, -1, :]\<close>: the row of the final position; none on an empty result.\<close>

definition pluck :: "score list list \<Rightarrow> error + score list" where
  "pluck rows = (if rows = [] then Inl IndexError else Inr (last rows))"

text \<open>
  \<^verbatim>\<open>logits = logits[:, -1, :] / temperature\<close> followed by
  \<^verbatim>\<open>if top_k is not None: logits = top_k_logits(logits, top_k)\<close>, on the plucked row.
\<close>

definition transform :: "real \<Rightarrow> int option \<Rightarrow> score list \<Rightarrow> error + score list" where
  "transform temperature top_k row =
     (case top_k of
        None \<Rightarrow> Inr (map (\<lambda>s. fdiv s temperature) row)
      | Some k \<Rightarrow> top_k_logits (map (\<lambda>s. fdiv s temperature) row) k)"

text \<open>
  \<^verbatim>\<open>probs = F.softmax(logits, dim=-1)\<close>, then \<^verbatim>\<open>torch.multinomial(probs, num_samples=1)\<close>
  if \<^verbatim>\<open>sample\<close> is set and \<^verbatim>\<open>torch.topk(probs, k=1, dim=-1)\<close> otherwise.  \<open>u\<close> is the
  uniform variate the random source gives for this step.
\<close>

definition select :: "bool \<Rightarrow> real \<Rightarrow> score list \<Rightarrow> error + nat" where
  "select smp u logits =
     (if smp then multinomial u (softmax logits) else topk1 (softmax logits))"

text \<open>The body of the loop after the forward pass.\<close>

definition next_token ::
  "real \<Rightarrow> bool \<Rightarrow> int option \<Rightarrow> real \<Rightarrow> score list list \<Rightarrow> error + nat" where
  "next_token temperature smp top_k u rows =
     (case pluck rows of
        Inl e \<Rightarrow> Inl e
      | Inr row \<Rightarrow>
          (case transform temperature top_k row of
             Inl e \<Rightarrow> Inl e
           | Inr logits \<Rightarrow> select smp u logits))"

text \<open>
  The loop \<^verbatim>\<open>for k in range(steps)\<close>, with \<open>n\<close> iterations left and \<open>i\<close> done.  The
  result pairs the contexts handed to the forward pass, in order, with the outcome: the
  exception that ended the call, or the final sequence.
\<close>

fun decode ::
  "model \<Rightarrow> real \<Rightarrow> bool \<Rightarrow> int option \<Rightarrow> (nat \<Rightarrow> real) \<Rightarrow> nat \<Rightarrow> nat \<Rightarrow> int list
     \<Rightarrow> int list list \<times> (error + int list)" where
  "decode m temperature smp top_k rng 0 i x = ([], Inr x)"
| "decode m temperature smp top_k rng (Suc n) i x =
     (let ctx = x_cond (get_block_size m - 1) x in
      case next_token temperature smp top_k (rng i) (forward m ctx) of
        Inl e \<Rightarrow> ([ctx], Inl e)
      | Inr ix \<Rightarrow>
          (case decode m temperature smp top_k rng n (Suc i) (x @ [int ix]) of
             (qs, r) \<Rightarrow> (ctx # qs, r)))"

text \<open>
  \<^verbatim>\<open>sample(model, x, steps, temperature, sample, top_k)\<close>.  \<^verbatim>\<open>range(steps)\<close> is empty
  for a negative \<open>steps\<close>, which is what \<^const>\<open>nat\<close> gives.
\<close>

definition sample ::
  "model \<Rightarrow> int list \<Rightarrow> int \<Rightarrow> real \<Rightarrow> bool \<Rightarrow> int option \<Rightarrow> (nat \<Rightarrow> real)
     \<Rightarrow> int list list \<times> (error + int list)" where
  "sample m x steps temperature smp top_k rng =
     decode m temperature smp top_k rng (nat steps) 0 x"

subsection \<open>Specification vocabulary and test doubles\<close>

text \<open>
  The index of the single largest entry, ties broken by the lowest index, as the design
  words the deterministic choice.
\<close>

definition is_argmax :: "score list \<Rightarrow> nat \<Rightarrow> bool" where
  "is_argmax zs r =
     (r < length zs \<and> (\<forall>j<length zs. zs ! j \<le> zs ! r) \<and> (\<forall>j<r. zs ! j < zs ! r))"

text \<open>
  A row as the predictor contract describes it: real numbers, and after the
  truncation negative infinities, with one real number at least.
\<close>

definition wf_row :: "score list \<Rightarrow> bool" where
  "wf_row zs = ((\<forall>z\<in>set zs. z = NegInf \<or> is_Fin z) \<and> (\<exists>z\<in>set zs. is_Fin z))"

text \<open>
  Predictors that return a fixed score vector at every position, and a random source
  that always gives 0.
\<close>

definition const_model :: "int \<Rightarrow> score list \<Rightarrow> model" where
  "const_model bs row = \<lparr>get_block_size = bs, forward = (\<lambda>ctx. [row])\<rparr>"

definition zero_rng :: "nat \<Rightarrow> real" where
  "zero_rng i = 0"

section \<open>The context window\<close>

lemma x_cond_pos: "0 < bs \<Longrightarrow> x_cond bs x = drop (length x - nat bs) x"
  by (auto simp: x_cond_def slice_from_def Let_def max_def nat_diff_distrib' nat_add_distrib)

lemma x_cond_length: "0 < bs \<Longrightarrow> length (x_cond bs x) = min (length x) (nat bs)"
  by (auto simp: x_cond_pos)

text \<open>Every context in the log of a run is the crop of some sequence.\<close>

lemma decode_fst_set:
  "q \<in> set (fst (decode m t s k rng n i x)) \<Longrightarrow> \<exists>y. q = x_cond (get_block_size m - 1) y"
proof (induction n arbitrary: i x)
  case 0 then show ?case by simp
next
  case (Suc n)
  let ?ctx = "x_cond (get_block_size m - 1) x"
  show ?case
  proof (cases "next_token t s k (rng i) (forward m ?ctx)")
    case (Inl e)
    then have "q = ?ctx" using Suc.prems by (simp add: Let_def)
    then show ?thesis by blast
  next
    case (Inr ix)
    obtain qs r where rec: "decode m t s k rng n (Suc i) (x @ [int ix]) = (qs, r)"
      by (cases "decode m t s k rng n (Suc i) (x @ [int ix])")
    from Suc.prems Inr rec have "q = ?ctx \<or> q \<in> set qs" by (simp add: Let_def)
    then show ?thesis
    proof
      assume "q = ?ctx" then show ?thesis by blast
    next
      assume "q \<in> set qs"
      then have "q \<in> set (fst (decode m t s k rng n (Suc i) (x @ [int ix])))"
        using rec by simp
      then show ?thesis by (rule Suc.IH)
    qed
  qed
qed

lemma decode_fst_bound:
  assumes "0 < get_block_size m - 1"
    and "q \<in> set (fst (decode m t s k rng n i x))"
  shows "int (length q) \<le> get_block_size m - 1"
proof -
  from decode_fst_set[OF assms(2)] obtain y where "q = x_cond (get_block_size m - 1) y"
    by blast
  then show ?thesis using assms(1) by (simp add: x_cond_length)
qed

text \<open>
  A run that returns a sequence has appended one token per step, and its \<open>j\<close>-th
  context is the crop of the sequence as it stood after \<open>j\<close> steps.
\<close>

lemma decode_Inr:
  "decode m t s k rng n i x = (qs, Inr y) \<Longrightarrow>
     length y = length x + n \<and> take (length x) y = x \<and> length qs = n \<and>
     (\<forall>j<n. qs ! j = x_cond (get_block_size m - 1) (take (length x + j) y))"
proof (induction n arbitrary: i x qs)
  case 0 then show ?case by simp
next
  case (Suc n)
  let ?ctx = "x_cond (get_block_size m - 1) x"
  from Suc.prems obtain ix qs' where
    nt: "next_token t s k (rng i) (forward m ?ctx) = Inr ix" and
    rec: "decode m t s k rng n (Suc i) (x @ [int ix]) = (qs', Inr y)" and
    qs: "qs = ?ctx # qs'"
    by (auto simp: Let_def split: sum.splits prod.splits)
  from Suc.IH[OF rec] have
    len: "length y = length (x @ [int ix]) + n" and
    tk: "take (length (x @ [int ix])) y = x @ [int ix]" and
    lq: "length qs' = n" and
    all: "\<forall>j<n. qs' ! j = x_cond (get_block_size m - 1) (take (length (x @ [int ix]) + j) y)"
    by auto
  have tkx: "take (length x) y = x"
  proof -
    have "take (length x) (take (length (x @ [int ix])) y) = take (length x) (x @ [int ix])"
      using tk by simp
    then show ?thesis by (simp add: min_def)
  qed
  have "\<forall>j<Suc n. qs ! j = x_cond (get_block_size m - 1) (take (length x + j) y)"
  proof (intro allI impI)
    fix j assume "j < Suc n"
    show "qs ! j = x_cond (get_block_size m - 1) (take (length x + j) y)"
    proof (cases j)
      case 0 then show ?thesis using qs tkx by simp
    next
      case (Suc j')
      then show ?thesis using qs all \<open>j < Suc n\<close> by simp
    qed
  qed
  then show ?case using len tkx lq qs by simp
qed

text \<open>
  C4. For a positive context limit the context handed to the forward pass is the
  trailing slice of the sequence, of length the minimum of the sequence length and the
  limit; a sequence no longer than the limit is passed unchanged; and in a call of
  \<^const>\<open>sample\<close>, whose limit is \<open>get_block_size m - 1\<close>, no context is longer than the
  limit, the \<open>j\<close>-th one being the crop of the sequence after \<open>j\<close> steps.
\<close>

theorem context_is_trailing_slice:
  assumes "0 < bs"
  shows "x_cond bs x = drop (length x - nat bs) x
       \<and> length (x_cond bs x) = min (length x) (nat bs)
       \<and> (int (length x) \<le> bs \<longrightarrow> x_cond bs x = x)
       \<and> (get_block_size m - 1 = bs \<longrightarrow>
            (\<forall>q\<in>set (fst (sample m x steps t s k rng)). int (length q) \<le> bs)
          \<and> (\<forall>qs y. sample m x steps t s k rng = (qs, Inr y) \<longrightarrow>
               (\<forall>j<length qs. qs ! j = x_cond bs (take (length x + j) y))))"
proof (intro conjI impI)
  show "x_cond bs x = drop (length x - nat bs) x"
    using assms by (rule x_cond_pos)
  show "length (x_cond bs x) = min (length x) (nat bs)"
    using assms by (rule x_cond_length)
  show "x_cond bs x = x" if "int (length x) \<le> bs"
    using that by (simp add: x_cond_def)
next
  assume bs: "get_block_size m - 1 = bs"
  show "\<forall>q\<in>set (fst (sample m x steps t s k rng)). int (length q) \<le> bs"
    using decode_fst_bound[of m _ t s k rng "nat steps" 0 x] assms bs
    by (auto simp: sample_def)
  show "\<forall>qs y. sample m x steps t s k rng = (qs, Inr y) \<longrightarrow>
          (\<forall>j<length qs. qs ! j = x_cond bs (take (length x + j) y))"
    using decode_Inr[of m t s k rng "nat steps" 0 x] bs
    by (auto simp: sample_def)
qed

theorem context_is_trailing_slice_witness:
  "x_cond 2 [7, 8, 9] = [8, 9]
   \<and> x_cond 2 [7] = [7]
   \<and> list_all (\<lambda>q. int (length q) \<le> 2)
        (fst (sample (const_model 3 [Fin 0]) [7, 8, 9] 4 1 False None zero_rng))"
  using context_is_trailing_slice[of 2 "[7, 8, 9]" "const_model 3 [Fin 0]" 4 1 False None zero_rng]
    context_is_trailing_slice[of 2 "[7]" "const_model 3 [Fin 0]" 4 1 False None zero_rng]
  by (simp add: const_model_def list_all_iff)

text \<open>
  C6. With \<open>steps = 0\<close> the call returns the seed unchanged and its log of forward
  passes is empty, whatever the other arguments are.
\<close>

theorem zero_steps_returns_seed:
  "sample m x 0 temperature smp top_k rng = ([], Inr x)"
  by (simp add: sample_def)

section \<open>Configuration is not checked\<close>

lemma length_softmax [simp]: "length (softmax xs) = length xs"
  by (simp add: softmax_def)

lemma topk1_nonempty: "ps \<noteq> [] \<Longrightarrow> \<exists>ix. topk1 ps = Inr ix"
  by (cases ps) (simp_all add: topk1_def)

lemma select_det_nonempty: "logits \<noteq> [] \<Longrightarrow> \<exists>ix. select False u logits = Inr ix"
proof -
  assume "logits \<noteq> []"
  then have "softmax logits \<noteq> []"
    using length_softmax[of logits] by (metis length_0_conv)
  then show ?thesis unfolding select_def by (simp add: topk1_nonempty)
qed

lemma decode_first_query:
  "\<exists>qs r. decode m t s k rng (Suc n) i x = (x_cond (get_block_size m - 1) x # qs, r)"
proof (cases "next_token t s k (rng i) (forward m (x_cond (get_block_size m - 1) x))")
  case (Inl e)
  then show ?thesis by (simp add: Let_def)
next
  case (Inr ix)
  then show ?thesis
    by (cases "decode m t s k rng n (Suc i) (x @ [int ix])") (simp add: Let_def)
qed

lemma sample_first_query:
  assumes "0 < steps"
  shows "\<exists>qs r. sample m x steps t s k rng = (x_cond (get_block_size m - 1) x # qs, r)"
proof -
  from assms obtain n where "nat steps = Suc n"
    by (cases "nat steps") auto
  then show ?thesis
    unfolding sample_def using decode_first_query[of m t s k rng n 0 x] by simp
qed

text \<open>
  In deterministic mode without truncation, a predictor that returns a non-empty row at
  every position makes every step succeed, whatever the temperature is.
\<close>

lemma next_token_det_plain:
  assumes "rows \<noteq> []" and "last rows \<noteq> []"
  shows "\<exists>ix. next_token t False None u rows = Inr ix"
proof -
  have "map (\<lambda>s. fdiv s t) (last rows) \<noteq> []" using assms(2) by simp
  from select_det_nonempty[OF this, of u] show ?thesis
    using assms(1) by (simp add: next_token_def pluck_def transform_def)
qed

lemma decode_det_plain:
  assumes "\<And>ctx. forward m ctx \<noteq> [] \<and> last (forward m ctx) \<noteq> []"
  shows "\<exists>qs y. decode m t False None rng n i x = (qs, Inr y)"
proof (induction n arbitrary: i x)
  case 0 show ?case by simp
next
  case (Suc n)
  let ?ctx = "x_cond (get_block_size m - 1) x"
  from assms[of ?ctx] next_token_det_plain
  obtain ix where nt: "next_token t False None (rng i) (forward m ?ctx) = Inr ix"
    by blast
  from Suc[of "Suc i" "x @ [int ix]"] obtain qs y where
    "decode m t False None rng n (Suc i) (x @ [int ix]) = (qs, Inr y)" by blast
  then show ?case using nt by (simp add: Let_def)
qed

text \<open>
  C9 as stated fails: with a block size of 1 the limit is 0, the sequence is longer
  than the limit, and the slice \<^verbatim>\<open>x[:, -0:]\<close> is the whole sequence.
\<close>

theorem context_within_block_size_counterexample:
  "fst (sample (const_model 1 [Fin 0]) [5, 6] 1 1 False None zero_rng) = [[5, 6]]
   \<and> get_block_size (const_model 1 [Fin 0]) - 1 = 0"
  by (simp add: sample_def const_model_def zero_rng_def x_cond_def slice_from_def
      next_token_def pluck_def transform_def select_def softmax_def topk1_def)

text \<open>
  C9, amended. When the block size of the model is at least 2, every context handed to
  the forward pass has length at most \<open>get_block_size m - 1\<close>; the limit is read from
  the model, and \<^const>\<open>sample\<close> has no parameter for it.
\<close>

theorem context_within_block_size:
  assumes "2 \<le> get_block_size m"
  shows "\<forall>q\<in>set (fst (sample m x steps t s k rng)). int (length q) \<le> get_block_size m - 1"
proof
  fix q assume "q \<in> set (fst (sample m x steps t s k rng))"
  then have "q \<in> set (fst (decode m t s k rng (nat steps) 0 x))"
    by (simp add: sample_def)
  moreover have "0 < get_block_size m - 1" using assms by simp
  ultimately show "int (length q) \<le> get_block_size m - 1"
    by (rule decode_fst_bound[rotated])
qed

theorem context_within_block_size_witness:
  "list_all (\<lambda>q. int (length q) \<le> 1)
     (fst (sample (const_model 2 [Fin 0]) [5, 6] 3 1 True (Some 1) zero_rng))"
  using context_within_block_size[of "const_model 2 [Fin 0]" "[5, 6]" 3 1 True "Some 1" zero_rng]
  by (simp add: const_model_def list_all_iff)

text \<open>
  C2 as stated fails: with temperature 0, and with temperature \<open>-1\<close>, the call raises
  nothing; the forward pass is run and a token is appended.
\<close>

theorem temperature_check_counterexample:
  "sample (const_model 20 [Fin 1, Fin 2]) [3] 1 0 False None zero_rng = ([[3]], Inr [3, 0])
   \<and> sample (const_model 20 [Fin 1, Fin 2]) [3] 1 (- 1) False None zero_rng = ([[3]], Inr [3, 0])"
proof -
  have pos: "0 < exp (- 1 :: real) + exp (- 2)"
    by (simp add: add_pos_pos)
  show ?thesis
    using pos
    by (simp add: sample_def const_model_def zero_rng_def x_cond_def next_token_def pluck_def
        transform_def select_def softmax_def topk1_def less_score_def divide_less_cancel
        max_finite_def)
qed

text \<open>
  C2, amended. The temperature is not checked: in a call with temperature \<open>\<le> 0\<close> and
  at least one step, the first thing that happens is the forward pass on the cropped
  seed; and in deterministic mode without truncation, on a predictor that returns a
  non-empty row at every position, the call runs all its steps and returns a sequence.
\<close>

theorem temperature_not_checked:
  assumes "temperature \<le> 0" and "0 < steps"
  shows "(\<exists>qs r. sample m x steps temperature smp top_k rng
                   = (x_cond (get_block_size m - 1) x # qs, r))
       \<and> ((\<forall>ctx. forward m ctx \<noteq> [] \<and> last (forward m ctx) \<noteq> []) \<longrightarrow>
            (\<exists>qs y. sample m x steps temperature False None rng = (qs, Inr y)
                     \<and> length y = length x + nat steps))"
proof (intro conjI impI)
  show "\<exists>qs r. sample m x steps temperature smp top_k rng
                 = (x_cond (get_block_size m - 1) x # qs, r)"
    using assms(2) by (rule sample_first_query)
next
  assume "\<forall>ctx. forward m ctx \<noteq> [] \<and> last (forward m ctx) \<noteq> []"
  then have "\<And>ctx. forward m ctx \<noteq> [] \<and> last (forward m ctx) \<noteq> []" by blast
  from decode_det_plain[OF this, of temperature rng "nat steps" 0 x]
  obtain qs y where d: "decode m temperature False None rng (nat steps) 0 x = (qs, Inr y)"
    by blast
  from decode_Inr[OF d] have "length y = length x + nat steps" by simp
  then show "\<exists>qs y. sample m x steps temperature False None rng = (qs, Inr y)
                    \<and> length y = length x + nat steps"
    using d by (simp add: sample_def)
qed

theorem temperature_not_checked_witness:
  "(\<exists>qs r. sample (const_model 20 [Fin 1, Fin 2]) [3] 2 0 True (Some 2) zero_rng = ([3] # qs, r))
   \<and> (\<exists>qs y. sample (const_model 20 [Fin 1, Fin 2]) [3] 2 0 False None zero_rng = (qs, Inr y)
              \<and> length y = Suc (Suc (Suc 0)))"
  using temperature_not_checked[of 0 2 "const_model 20 [Fin 1, Fin 2]" "[3]" True "Some 2" zero_rng]
  by (simp add: const_model_def x_cond_def)

section \<open>The deterministic choice\<close>

lemma argmax_from_spec:
  assumes "length pre = i" and "bi < i" and "pre ! bi = b"
    and "\<forall>j<i. pre ! j \<le> b" and "\<forall>j<bi. pre ! j < b"
  shows "is_argmax (pre @ xs) (argmax_from b bi i xs)"
  using assms
proof (induction xs arbitrary: pre b bi i)
  case Nil
  then show ?case by (simp add: is_argmax_def)
next
  case (Cons x xs)
  show ?case
  proof (cases "b < x")
    case True
    have "is_argmax ((pre @ [x]) @ xs) (argmax_from x i (Suc i) xs)"
    proof (rule Cons.IH)
      show "length (pre @ [x]) = Suc i" using Cons.prems(1) by simp
      show "i < Suc i" by simp
      show "(pre @ [x]) ! i = x" using Cons.prems(1) by (simp add: nth_append)
      show "\<forall>j<Suc i. (pre @ [x]) ! j \<le> x"
      proof (intro allI impI)
        fix j assume "j < Suc i"
        show "(pre @ [x]) ! j \<le> x"
        proof (cases "j < i")
          case True
          then have "pre ! j \<le> b" using Cons.prems(4) by simp
          then show ?thesis using True \<open>b < x\<close> Cons.prems(1) by (simp add: nth_append)
        next
          case False
          then have "j = i" using \<open>j < Suc i\<close> by simp
          then show ?thesis using Cons.prems(1) by (simp add: nth_append)
        qed
      qed
      show "\<forall>j<i. (pre @ [x]) ! j < x"
      proof (intro allI impI)
        fix j assume "j < i"
        then have "pre ! j \<le> b" using Cons.prems(4) by simp
        then show "(pre @ [x]) ! j < x"
          using \<open>j < i\<close> \<open>b < x\<close> Cons.prems(1) by (simp add: nth_append)
      qed
    qed
    then show ?thesis using True by simp
  next
    case False
    have "is_argmax ((pre @ [x]) @ xs) (argmax_from b bi (Suc i) xs)"
    proof (rule Cons.IH)
      show "length (pre @ [x]) = Suc i" using Cons.prems(1) by simp
      show "bi < Suc i" using Cons.prems(2) by simp
      show "(pre @ [x]) ! bi = b" using Cons.prems(1,2,3) by (simp add: nth_append)
      show "\<forall>j<Suc i. (pre @ [x]) ! j \<le> b"
      proof (intro allI impI)
        fix j assume "j < Suc i"
        show "(pre @ [x]) ! j \<le> b"
        proof (cases "j < i")
          case True
          then show ?thesis using Cons.prems(1,4) by (simp add: nth_append)
        next
          case nlt: False
          then have "j = i" using \<open>j < Suc i\<close> by simp
          then show ?thesis using Cons.prems(1) False by (simp add: nth_append)
        qed
      qed
      show "\<forall>j<bi. (pre @ [x]) ! j < b"
        using Cons.prems(1,2,5) by (simp add: nth_append)
    qed
    then show ?thesis using False by simp
  qed
qed

lemma topk1_is_argmax:
  assumes "zs \<noteq> []"
  shows "\<exists>r. topk1 zs = Inr r \<and> is_argmax zs r"
proof -
  from assms obtain p ps where zs: "zs = p # ps" by (cases zs) auto
  have "is_argmax ([p] @ ps) (argmax_from p 0 1 ps)"
    by (rule argmax_from_spec) simp_all
  then show ?thesis using zs by (simp add: topk1_def)
qed

lemma is_argmax_unique:
  assumes "is_argmax zs r" and "is_argmax zs r'"
  shows "r = r'"
proof (rule ccontr)
  assume "r \<noteq> r'"
  then consider "r < r'" | "r' < r" by linarith
  then show False
  proof cases
    case 1
    then have "zs ! r < zs ! r'" using assms(2) by (simp add: is_argmax_def)
    moreover have "zs ! r' \<le> zs ! r" using assms by (simp add: is_argmax_def)
    ultimately show False by simp
  next
    case 2
    then have "zs ! r' < zs ! r" using assms(1) by (simp add: is_argmax_def)
    moreover have "zs ! r \<le> zs ! r'" using assms by (simp add: is_argmax_def)
    ultimately show False by simp
  qed
qed

lemma topk1_eqI:
  assumes "is_argmax zs r"
  shows "topk1 zs = Inr r"
proof -
  from assms have "zs \<noteq> []" by (auto simp: is_argmax_def)
  from topk1_is_argmax[OF this] obtain r' where "topk1 zs = Inr r'" "is_argmax zs r'"
    by blast
  then show ?thesis using is_argmax_unique[OF assms] by simp
qed

lemma is_argmax_map_mono:
  assumes "\<And>a b. a \<in> set zs \<Longrightarrow> b \<in> set zs \<Longrightarrow> (f a < f b) = (a < b)"
  shows "is_argmax (map f zs) r = is_argmax zs r"
proof -
  have le: "(f a \<le> f b) = (a \<le> b)" if "a \<in> set zs" "b \<in> set zs" for a b
    using assms[OF that(2) that(1)] by (simp add: not_less[symmetric])
  show ?thesis
    unfolding is_argmax_def using assms le by (auto simp: nth_mem)
qed

subsection \<open>Normalization on well-formed rows\<close>

lemma sum_list_pos:
  fixes f :: "'a \<Rightarrow> real"
  assumes "\<forall>x\<in>set xs. 0 \<le> f x" and "y \<in> set xs" and "0 < f y"
  shows "0 < sum_list (map f xs)"
  using assms
proof (induction xs)
  case Nil
  then show ?case by simp
next
  case (Cons a xs)
  have nn: "0 \<le> sum_list (map f xs)"
    using Cons.prems(1) by (intro sum_list_nonneg) auto
  show ?case
  proof (cases "y = a")
    case True
    then show ?thesis using nn Cons.prems(3) by simp
  next
    case False
    then have "0 < sum_list (map f xs)" using Cons by simp
    moreover have "0 \<le> f a" using Cons.prems(1) by simp
    ultimately show ?thesis by simp
  qed
qed

lemma expo_nonneg: "0 \<le> expo z"
  by (cases z) simp_all

lemma wf_row_sum_pos:
  assumes "wf_row zs"
  shows "0 < sum_list (map expo zs)"
proof -
  from assms obtain y where y: "y \<in> set zs" "is_Fin y" by (auto simp: wf_row_def)
  have "0 < expo y" using y(2) by (cases y) simp_all
  with y(1) show ?thesis by (intro sum_list_pos[of zs expo y]) (simp_all add: expo_nonneg)
qed

lemma softmax_wf_row:
  assumes "wf_row zs"
  shows "softmax zs = map (\<lambda>x. Fin (expo x / sum_list (map expo zs))) zs"
proof -
  have a: "\<not> (\<exists>x\<in>set zs. x = NaN \<or> x = PosInf)"
    using assms by (auto simp: wf_row_def)
  have b: "\<not> (\<forall>x\<in>set zs. x = NegInf)"
  proof -
    from assms obtain y where "y \<in> set zs" "is_Fin y" by (auto simp: wf_row_def)
    moreover from this have "y \<noteq> NegInf" by auto
    ultimately show ?thesis by blast
  qed
  from a b have "\<not> ((\<exists>x\<in>set zs. x = NaN \<or> x = PosInf) \<or> (\<forall>x\<in>set zs. x = NegInf))"
    by blast
  then show ?thesis unfolding softmax_def by (rule if_not_P)
qed

lemma expo_less_iff:
  assumes "a = NegInf \<or> is_Fin a" and "b = NegInf \<or> is_Fin b"
  shows "(expo a < expo b) = (a < b)"
  using assms by (cases a; cases b) (simp_all add: less_score_def)

lemma is_argmax_softmax:
  assumes "wf_row zs"
  shows "is_argmax (softmax zs) r = is_argmax zs r"
proof -
  let ?Z = "sum_list (map expo zs)"
  have Z: "0 < ?Z" using assms by (rule wf_row_sum_pos)
  have "(Fin (expo a / ?Z) < Fin (expo b / ?Z)) = (a < b)"
    if "a \<in> set zs" "b \<in> set zs" for a b
  proof -
    have "(Fin (expo a / ?Z) < Fin (expo b / ?Z)) = (expo a / ?Z < expo b / ?Z)"
      by (simp add: less_score_def)
    also have "\<dots> = (expo a < expo b)" using Z by (simp add: divide_less_cancel)
    also have "\<dots> = (a < b)"
      using that assms by (intro expo_less_iff) (auto simp: wf_row_def)
    finally show ?thesis .
  qed
  then have "is_argmax (map (\<lambda>x. Fin (expo x / ?Z)) zs) r = is_argmax zs r"
    by (rule is_argmax_map_mono)
  then show ?thesis using softmax_wf_row[OF assms] by simp
qed

text \<open>In deterministic mode the random source is not read.\<close>

lemma decode_det_rng:
  "decode m t False k rng n i x = decode m t False k rng' n i' x"
proof (induction n arbitrary: i i' x)
  case 0 show ?case by simp
next
  case (Suc n)
  have "next_token t False k (rng i) rows = next_token t False k (rng' i') rows" for rows
    by (simp add: next_token_def select_def split: sum.splits)
  then show ?case using Suc[of "Suc i" _ "Suc i'"] by (simp add: Let_def split: sum.splits)
qed

text \<open>
  C10. On a row of real numbers and negative infinities that are not all negative
  infinity, the index of the largest normalized probability is the index of the largest
  score (lowest index on ties, for both), so the deterministic choice made on the
  probabilities is the one made on the scores themselves.
\<close>

theorem softmax_keeps_argmax:
  assumes "wf_row zs"
  shows "(\<forall>r. is_argmax (softmax zs) r = is_argmax zs r)
       \<and> select False u zs = topk1 zs"
proof
  show "\<forall>r. is_argmax (softmax zs) r = is_argmax zs r"
    using assms by (simp add: is_argmax_softmax)
next
  from assms have "zs \<noteq> []" by (auto simp: wf_row_def)
  from topk1_is_argmax[OF this] obtain r where r: "topk1 zs = Inr r" "is_argmax zs r"
    by blast
  then have "is_argmax (softmax zs) r" using assms by (simp add: is_argmax_softmax)
  then have "topk1 (softmax zs) = Inr r" by (rule topk1_eqI)
  then show "select False u zs = topk1 zs" using r by (simp add: select_def)
qed

theorem softmax_keeps_argmax_witness:
  "select False 0 [Fin 1, NegInf, Fin 3, Fin 3, Fin 2] = Inr 2"
  using softmax_keeps_argmax[of "[Fin 1, NegInf, Fin 3, Fin 3, Fin 2]" 0]
  by (simp add: wf_row_def topk1_def less_score_def)

text \<open>
  C8. In deterministic mode the step selects, on a non-empty row of transformed
  scores, the index of the single largest probability, the lowest index on ties; and a
  deterministic call does not depend on the random source, so that two calls on the same
  model, seed, step count, temperature and \<open>top_k\<close> return the same result.
\<close>

theorem deterministic_choice:
  "(logits \<noteq> [] \<longrightarrow> (\<exists>r. select False u logits = Inr r \<and> is_argmax (softmax logits) r))
   \<and> sample m x steps t False k rng = sample m x steps t False k rng'"
proof
  show "logits \<noteq> [] \<longrightarrow> (\<exists>r. select False u logits = Inr r \<and> is_argmax (softmax logits) r)"
  proof
    assume "logits \<noteq> []"
    then have "softmax logits \<noteq> []"
      using length_softmax[of logits] by (metis length_0_conv)
    from topk1_is_argmax[OF this] show
      "\<exists>r. select False u logits = Inr r \<and> is_argmax (softmax logits) r"
      by (simp add: select_def)
  qed
next
  show "sample m x steps t False k rng = sample m x steps t False k rng'"
    unfolding sample_def by (rule decode_det_rng)
qed

theorem deterministic_choice_witness:
  "(\<exists>r. select False 0 [Fin 2, Fin 5, Fin 5] = Inr r \<and> is_argmax (softmax [Fin 2, Fin 5, Fin 5]) r)
   \<and> sample (const_model 8 [Fin 2, Fin 5, Fin 5]) [3] 2 1 False (Some 2) zero_rng
     = sample (const_model 8 [Fin 2, Fin 5, Fin 5]) [3] 2 1 False (Some 2) (\<lambda>i. 1 / 2)"
  using deterministic_choice[of "[Fin 2, Fin 5, Fin 5]" 0 "const_model 8 [Fin 2, Fin 5, Fin 5]"
      "[3]" 2 1 "Some 2" zero_rng "\<lambda>i. 1 / 2"]
  by simp

section \<open>Top-k truncation\<close>

lemma NegInf_least [simp]: "NegInf \<le> (z :: score)"
  by (cases z) (simp_all add: less_eq_score_def)

lemma NaN_greatest [simp]: "(z :: score) \<le> NaN"
  by (cases z) (simp_all add: less_eq_score_def)

lemma lt_Fin: "is_Fin a \<Longrightarrow> is_Fin b \<Longrightarrow> lt a b = (a < b)"
  by (cases a; cases b) (simp_all add: lt_def)

lemma length_filter_sorted_desc:
  "length (filter P (rev (sort xs))) = length (filter P (xs :: score list))"
proof -
  have "mset (filter P (rev (sort xs))) = mset (filter P xs)" by simp
  then have "size (mset (filter P (rev (sort xs)))) = size (mset (filter P xs))" by simp
  then show ?thesis by (simp only: size_mset)
qed

text \<open>
  The last of the \<open>k\<close> values that \<^const>\<open>topk_values\<close> returns is the \<open>k\<close>-th largest
  entry: fewer than \<open>k\<close> entries are above it and at least \<open>k\<close> are not below it.
\<close>

lemma kth_largest:
  fixes xs :: "score list"
  assumes "1 \<le> n" and "n \<le> length xs"
  defines "v \<equiv> last (take n (rev (sort xs)))"
  shows "v \<in> set xs"
    and "length (filter (\<lambda>x. v < x) xs) < n"
    and "n \<le> length (filter (\<lambda>x. v \<le> x) xs)"
proof -
  let ?s = "rev (sort xs)"
  have len: "length ?s = length xs" by simp
  have desc: "sorted (rev ?s)" by simp
  have ne: "take n ?s \<noteq> []" using assms(1,2) by (cases xs) auto
  have v: "v = ?s ! (n - 1)"
    unfolding v_def using ne assms(1,2) by (simp add: last_conv_nth min_def)
  have "v \<in> set ?s" unfolding v using assms(1,2) len by (intro nth_mem) simp
  then show "v \<in> set xs" by simp
  have below: "y \<le> v" if "y \<in> set (drop (n - 1) ?s)" for y
  proof -
    from that obtain j where j: "j < length (drop (n - 1) ?s)" "y = drop (n - 1) ?s ! j"
      by (auto simp: in_set_conv_nth)
    then have "y = ?s ! (n - 1 + j)" and "n - 1 + j < length ?s" by auto
    then show ?thesis
      unfolding v using sorted_rev_nth_mono[OF desc, of "n - 1" "n - 1 + j"] by simp
  qed
  have above: "v \<le> y" if "y \<in> set (take n ?s)" for y
  proof -
    from that obtain j where j: "j < length (take n ?s)" "y = take n ?s ! j"
      by (auto simp: in_set_conv_nth)
    then have "y = ?s ! j" and "j \<le> n - 1" and "n - 1 < length ?s"
      using assms(1,2) by auto
    then show ?thesis
      unfolding v using sorted_rev_nth_mono[OF desc, of j "n - 1"] by simp
  qed
  have "\<forall>y\<in>set (drop (n - 1) ?s). \<not> v < y"
    using below leD by blast
  then have "filter (\<lambda>x. v < x) (drop (n - 1) ?s) = []"
    by (rule filter_False)
  then have "filter (\<lambda>x. v < x) ?s = filter (\<lambda>x. v < x) (take (n - 1) ?s)"
    using filter_append[of "\<lambda>x. v < x" "take (n - 1) ?s" "drop (n - 1) ?s"] by simp
  then have "length (filter (\<lambda>x. v < x) ?s) \<le> n - 1"
    using length_filter_le[of "\<lambda>x. v < x" "take (n - 1) ?s"] by simp
  then show "length (filter (\<lambda>x. v < x) xs) < n"
    using assms(1) by (simp add: length_filter_sorted_desc)
  have "\<forall>y\<in>set (take n ?s). v \<le> y"
    using above by blast
  then have "filter (\<lambda>x. v \<le> x) (take n ?s) = take n ?s"
    by (rule filter_True)
  then have "length (filter (\<lambda>x. v \<le> x) (take n ?s)) = n"
    using assms(2) by simp
  moreover have "length (filter (\<lambda>x. v \<le> x) ?s)
      = length (filter (\<lambda>x. v \<le> x) (take n ?s)) + length (filter (\<lambda>x. v \<le> x) (drop n ?s))"
    using filter_append[of "\<lambda>x. v \<le> x" "take n ?s" "drop n ?s"] by simp
  ultimately have "n \<le> length (filter (\<lambda>x. v \<le> x) ?s)" by simp
  then show "n \<le> length (filter (\<lambda>x. v \<le> x) xs)"
    by (simp add: length_filter_sorted_desc)
qed

lemma top_k_logits_valid:
  assumes "1 \<le> k" and "k \<le> int (length xs)"
  shows "top_k_logits xs k
    = Inr (map (\<lambda>x. if lt x (last (take (nat k) (rev (sort xs)))) then NegInf else x) xs)"
proof -
  have "take (nat k) (rev (sort xs)) \<noteq> []" using assms by (cases xs) auto
  then show ?thesis using assms by (simp add: top_k_logits_def topk_values_def)
qed

lemma count_finite_after_mask:
  assumes "\<forall>x\<in>set xs. is_Fin x" and "is_Fin v"
  shows "length (filter is_Fin (map (\<lambda>x. if lt x v then NegInf else x) xs))
       = length (filter (\<lambda>x. v \<le> x) xs)"
  using assms(1)
proof (induction xs)
  case Nil
  then show ?case by simp
next
  case (Cons a xs)
  then have "is_Fin a" by simp
  then have "lt a v = (a < v)" using assms(2) by (simp add: lt_Fin)
  then show ?case using Cons \<open>is_Fin a\<close> by (auto simp: not_less)
qed

lemma length_filter_le_split:
  fixes v :: score
  shows "length (filter (\<lambda>x. v \<le> x) xs)
       = length (filter (\<lambda>x. v < x) xs) + length (filter (\<lambda>x. x = v) xs)"
  by (induction xs) auto

text \<open>
  C3. For \<open>k\<close> between 1 and the vocabulary size, \<^const>\<open>top_k_logits\<close> returns a row
  \<open>out\<close> for a threshold \<open>v\<close> that is the \<open>k\<close>-th largest entry of the scores; an entry
  is set to negative infinity exactly when it is strictly less than \<open>v\<close>, every other
  entry, the ones equal to \<open>v\<close> among them, is kept; and on scores that are real
  numbers, with \<open>v\<close> occurring once, exactly \<open>k\<close> entries of \<open>out\<close> are finite.
\<close>

theorem top_k_truncation:
  assumes "1 \<le> k" and "k \<le> int (length xs)"
  shows "\<exists>v out. top_k_logits xs k = Inr out
       \<and> v \<in> set xs
       \<and> length (filter (\<lambda>x. v < x) xs) < nat k
       \<and> nat k \<le> length (filter (\<lambda>x. v \<le> x) xs)
       \<and> length out = length xs
       \<and> (\<forall>i<length xs. out ! i = (if lt (xs ! i) v then NegInf else xs ! i))
       \<and> (\<forall>i<length xs. xs ! i = v \<longrightarrow> out ! i = v)
       \<and> ((\<forall>x\<in>set xs. is_Fin x) \<and> length (filter (\<lambda>x. x = v) xs) = 1
            \<longrightarrow> length (filter is_Fin out) = nat k)"
proof -
  define v where "v = last (take (nat k) (rev (sort xs)))"
  define out where "out = map (\<lambda>x. if lt x v then NegInf else x) xs"
  have n: "1 \<le> nat k" "nat k \<le> length xs" using assms by auto
  have res: "top_k_logits xs k = Inr out"
    unfolding out_def v_def using assms by (rule top_k_logits_valid)
  have mem: "v \<in> set xs"
    and above: "length (filter (\<lambda>x. v < x) xs) < nat k"
    and upto: "nat k \<le> length (filter (\<lambda>x. v \<le> x) xs)"
    unfolding v_def using kth_largest[OF n] by blast+
  have pointwise: "\<forall>i<length xs. out ! i = (if lt (xs ! i) v then NegInf else xs ! i)"
    by (simp add: out_def)
  have ties: "\<forall>i<length xs. xs ! i = v \<longrightarrow> out ! i = v"
    by (simp add: out_def lt_def)
  have count: "length (filter is_Fin out) = nat k"
    if fin: "\<forall>x\<in>set xs. is_Fin x" and once: "length (filter (\<lambda>x. x = v) xs) = 1"
  proof -
    have "is_Fin v" using fin mem by blast
    then have "length (filter is_Fin out) = length (filter (\<lambda>x. v \<le> x) xs)"
      unfolding out_def using fin by (intro count_finite_after_mask)
    also have "\<dots> = length (filter (\<lambda>x. v < x) xs) + 1"
      using once by (simp add: length_filter_le_split)
    finally show ?thesis using above upto by (simp add: length_filter_le_split once)
  qed
  have "length out = length xs" by (simp add: out_def)
  with res mem above upto pointwise ties count show ?thesis by blast
qed

theorem top_k_truncation_witness:
  "top_k_logits [Fin 1, Fin 3, Fin 2, Fin 2, Fin 0] 2 = Inr [NegInf, Fin 3, Fin 2, Fin 2, NegInf]
   \<and> (\<exists>v out. top_k_logits [Fin 1, Fin 4, Fin 2, Fin 0] 2 = Inr out \<and> v \<in> set [Fin 1, Fin 4, Fin 2, Fin 0]
        \<and> length (filter is_Fin out) = 2)"
proof -
  have a: "top_k_logits [Fin 1, Fin 3, Fin 2, Fin 2, Fin 0] 2
         = Inr [NegInf, Fin 3, Fin 2, Fin 2, NegInf]"
    by (simp add: top_k_logits_def topk_values_def lt_def less_score_def sort_key_def
        insort_key_def less_eq_score_def)
  let ?xs = "[Fin 1, Fin 4, Fin 2, Fin 0]"
  from top_k_truncation[of 2 ?xs] obtain v out where
    r: "top_k_logits ?xs 2 = Inr out" and m: "v \<in> set ?xs"
    and c: "(\<forall>x\<in>set ?xs. is_Fin x) \<and> length (filter (\<lambda>x. x = v) ?xs) = 1
            \<longrightarrow> length (filter is_Fin out) = nat 2"
    by auto
  from m have "length (filter (\<lambda>x. x = v) ?xs) = 1" by auto
  with c have "length (filter is_Fin out) = 2" by simp
  with r m a show ?thesis by blast
qed

section \<open>Truncation to one candidate and the deterministic choice\<close>

lemma greatest_of_top1:
  fixes xs :: "score list"
  assumes "xs \<noteq> []"
  defines "v \<equiv> last (take (nat 1) (rev (sort xs)))"
  shows "v \<in> set xs" and "\<forall>x\<in>set xs. x \<le> v"
proof -
  have n: "1 \<le> nat 1" "nat 1 \<le> length xs" using assms(1) by (cases xs; simp)+
  show "v \<in> set xs" unfolding v_def using kth_largest(1)[OF n] .
  have "length (filter (\<lambda>x. v < x) xs) < nat 1"
    unfolding v_def using kth_largest(2)[OF n] .
  then have "filter (\<lambda>x. v < x) xs = []" by simp
  then show "\<forall>x\<in>set xs. x \<le> v" by (auto simp: filter_empty_conv not_less)
qed

lemma mask_fixes_specials:
  "(if lt NaN v then NegInf else NaN) = NaN"
  "(if lt PosInf v then NegInf else PosInf) = PosInf"
  "(if lt NegInf v then NegInf else NegInf) = NegInf"
proof -
  have "\<not> lt PosInf v" by (cases v) (simp_all add: lt_def less_score_def)
  then show "(if lt PosInf v then NegInf else PosInf) = PosInf" by simp
qed (simp_all add: lt_def)

lemma mask_le: "(if lt x v then NegInf else x) \<le> x"
  by simp

lemma is_argmax_mask:
  assumes "v \<in> set ls" and "\<forall>x\<in>set ls. x \<le> v" and "is_argmax ls r"
  shows "is_argmax (map (\<lambda>x. if lt x v then NegInf else x) ls) r"
proof -
  define g where "g = (\<lambda>x. if lt x v then NegInf else x)"
  have g_le: "g x \<le> x" for x unfolding g_def by (rule mask_le)
  have gv: "g v = v" by (simp add: g_def lt_def)
  have r: "r < length ls" using assms(3) by (simp add: is_argmax_def)
  from assms(1) obtain j where "j < length ls" "ls ! j = v"
    by (auto simp: in_set_conv_nth)
  then have "v \<le> ls ! r" using assms(3) by (auto simp: is_argmax_def)
  moreover have "ls ! r \<le> v" using assms(2) r by simp
  ultimately have top: "ls ! r = v" by simp
  have all: "g (ls ! j) \<le> v" if "j < length ls" for j
  proof -
    have "g (ls ! j) \<le> ls ! j" by (rule g_le)
    also have "ls ! j \<le> v" using assms(2) that by simp
    finally show ?thesis .
  qed
  have before: "g (ls ! j) < v" if "j < r" for j
  proof -
    have "g (ls ! j) \<le> ls ! j" by (rule g_le)
    also have "ls ! j < v" using assms(3) that top by (auto simp: is_argmax_def)
    finally show ?thesis .
  qed
  have "is_argmax (map g ls) r"
    unfolding is_argmax_def using r top gv all before by simp
  then show ?thesis by (simp add: g_def)
qed

lemma wf_row_cases:
  assumes "\<not> (\<exists>x\<in>set ls. x = NaN \<or> x = PosInf)" and "\<not> (\<forall>x\<in>set ls. x = NegInf)"
  shows "wf_row ls"
proof -
  have a: "z = NegInf \<or> is_Fin z" if "z \<in> set ls" for z
    using assms(1) that by (cases z) auto
  from assms(2) obtain y where "y \<in> set ls" "y \<noteq> NegInf" by blast
  then have "\<exists>z\<in>set ls. is_Fin z" using a by blast
  then show ?thesis using a by (auto simp: wf_row_def)
qed

lemma softmax_bad:
  assumes "\<exists>x\<in>set ls. x = NaN \<or> x = PosInf"
  shows "softmax ls = replicate (length ls) NaN"
  using assms by (simp add: softmax_def map_replicate_const)

lemma topk1_softmax_mask:
  assumes "ls \<noteq> []" and "v \<in> set ls" and "\<forall>x\<in>set ls. x \<le> v"
  shows "topk1 (softmax (map (\<lambda>x. if lt x v then NegInf else x) ls)) = topk1 (softmax ls)"
proof -
  let ?g = "\<lambda>x. if lt x v then NegInf else x"
  consider (bad) "\<exists>x\<in>set ls. x = NaN \<or> x = PosInf"
    | (none) "\<not> (\<exists>x\<in>set ls. x = NaN \<or> x = PosInf)" "\<forall>x\<in>set ls. x = NegInf"
    | (wf) "\<not> (\<exists>x\<in>set ls. x = NaN \<or> x = PosInf)" "\<not> (\<forall>x\<in>set ls. x = NegInf)"
    by blast
  then show ?thesis
  proof cases
    case bad
    then obtain x where x: "x \<in> set ls" "x = NaN \<or> x = PosInf" by blast
    then have "?g x = x" using mask_fixes_specials(1,2)[of v] by auto
    then have "x \<in> set (map ?g ls)" using x(1) by force
    then have "\<exists>x\<in>set (map ?g ls). x = NaN \<or> x = PosInf" using x(2) by blast
    then have "softmax (map ?g ls) = replicate (length (map ?g ls)) NaN"
      by (rule softmax_bad)
    moreover have "softmax ls = replicate (length ls) NaN"
      using bad by (rule softmax_bad)
    ultimately show ?thesis by simp
  next
    case none
    then have "map ?g ls = ls"
      using mask_fixes_specials(3)[of v] by (intro map_idI) auto
    then show ?thesis by simp
  next
    case wf
    then have w: "wf_row ls" by (rule wf_row_cases)
    then obtain y where y: "y \<in> set ls" "is_Fin y" by (auto simp: wf_row_def)
    have v_ok: "v = NegInf \<or> is_Fin v" using w assms(2) by (auto simp: wf_row_def)
    have "is_Fin v"
    proof (rule ccontr)
      assume "\<not> is_Fin v"
      then have "v = NegInf" using v_ok by simp
      moreover have "y \<le> v" using assms(3) y(1) by simp
      ultimately show False using y(2) by (cases y) (simp_all add: less_eq_score_def)
    qed
    have gv: "?g v = v" by (simp add: lt_def)
    have "v \<in> set (map ?g ls)" using assms(2) gv by force
    moreover have "\<forall>z\<in>set (map ?g ls). z = NegInf \<or> is_Fin z"
      using w by (auto simp: wf_row_def)
    ultimately have w': "wf_row (map ?g ls)"
      using \<open>is_Fin v\<close> by (auto simp: wf_row_def)
    from topk1_is_argmax[OF assms(1)] obtain r where r: "is_argmax ls r" by blast
    then have "is_argmax (map ?g ls) r" using assms(2,3) by (intro is_argmax_mask)
    then have "is_argmax (softmax (map ?g ls)) r" using w' by (simp add: is_argmax_softmax)
    then have "topk1 (softmax (map ?g ls)) = Inr r" by (rule topk1_eqI)
    moreover have "is_argmax (softmax ls) r" using r w by (simp add: is_argmax_softmax)
    then have "topk1 (softmax ls) = Inr r" by (rule topk1_eqI)
    ultimately show ?thesis by simp
  qed
qed

text \<open>
  C7. In deterministic mode a step with \<open>top_k = 1\<close> gives the same outcome as the step
  without truncation, for every temperature and every result of the forward pass: the
  same index, or the same exception when there is no row or the row is empty.
\<close>

theorem top_1_keeps_greedy_choice:
  "next_token t False (Some 1) u rows = next_token t False None u rows"
proof (cases "rows = []")
  case True
  then show ?thesis by (simp add: next_token_def pluck_def)
next
  case False
  let ?ls = "map (\<lambda>s. fdiv s t) (last rows)"
  show ?thesis
  proof (cases "?ls = []")
    case True
    then have "top_k_logits ?ls 1 = Inl RuntimeError"
      by (simp add: top_k_logits_def topk_values_def)
    moreover have "select False u ?ls = Inl RuntimeError"
      using True by (simp add: select_def softmax_def topk1_def)
    ultimately show ?thesis
      using \<open>rows \<noteq> []\<close> by (simp add: next_token_def pluck_def transform_def)
  next
    case ne: False
    let ?v = "last (take (nat 1) (rev (sort ?ls)))"
    have "1 \<le> int (length ?ls)" using ne by (cases "?ls") simp_all
    then have tk: "top_k_logits ?ls 1 = Inr (map (\<lambda>x. if lt x ?v then NegInf else x) ?ls)"
      by (intro top_k_logits_valid) simp_all
    have "topk1 (softmax (map (\<lambda>x. if lt x ?v then NegInf else x) ?ls)) = topk1 (softmax ?ls)"
      using ne greatest_of_top1[OF ne] by (intro topk1_softmax_mask)
    then have "select False u (map (\<lambda>x. if lt x ?v then NegInf else x) ?ls) = select False u ?ls"
      by (simp add: select_def)
    then show ?thesis
      using \<open>rows \<noteq> []\<close> tk by (simp add: next_token_def pluck_def transform_def)
  qed
qed

theorem top_1_keeps_greedy_choice_witness:
  "next_token 2 False (Some 1) 0 [[Fin 1, Fin 6, NegInf, Fin 6]] = Inr 1
   \<and> next_token 2 False None 0 [[Fin 1, Fin 6, NegInf, Fin 6]] = Inr 1"
proof -
  have "wf_row [Fin (1 / 2), Fin 3, NegInf, Fin 3]" by (simp add: wf_row_def)
  then have "topk1 (softmax [Fin (1 / 2), Fin 3, NegInf, Fin 3])
      = topk1 [Fin (1 / 2), Fin 3, NegInf, Fin 3]"
    using topk1_is_argmax[of "[Fin (1 / 2), Fin 3, NegInf, Fin 3]"] is_argmax_softmax topk1_eqI
    by (metis list.distinct(1))
  then have "next_token 2 False None 0 [[Fin 1, Fin 6, NegInf, Fin 6]] = Inr 1"
    by (simp add: next_token_def pluck_def transform_def select_def topk1_def less_score_def
        max_finite_def)
  then show ?thesis
    using top_1_keeps_greedy_choice[of 2 0 "[[Fin 1, Fin 6, NegInf, Fin 6]]"] by simp
qed

section \<open>Steps that fail and runs that complete\<close>

text \<open>A run of \<open>n + n'\<close> steps is a run of \<open>n\<close> steps followed by a run of \<open>n'\<close>.\<close>

lemma decode_add:
  "decode m t s k rng n i x = (qs, Inr y) \<Longrightarrow>
   decode m t s k rng (n + n') i x
     = (case decode m t s k rng n' (i + n) y of (qs', r) \<Rightarrow> (qs @ qs', r))"
proof (induction n arbitrary: i x qs)
  case 0
  then show ?case by (simp split: prod.splits)
next
  case (Suc n)
  let ?ctx = "x_cond (get_block_size m - 1) x"
  from Suc.prems obtain ix qs' where
    nt: "next_token t s k (rng i) (forward m ?ctx) = Inr ix" and
    rec: "decode m t s k rng n (Suc i) (x @ [int ix]) = (qs', Inr y)" and
    qs: "qs = ?ctx # qs'"
    by (auto simp: Let_def split: sum.splits prod.splits)
  from Suc.IH[OF rec] have
    "decode m t s k rng (n + n') (Suc i) (x @ [int ix])
       = (case decode m t s k rng n' (Suc i + n) y of (qs'', r) \<Rightarrow> (qs' @ qs'', r))" .
  then show ?case using nt qs by (simp add: Let_def split: prod.splits)
qed

lemma select_all_neg_inf:
  assumes "\<forall>z\<in>set logits. z = NegInf"
  shows "select True u logits = Inl RuntimeError"
proof -
  have sm: "softmax logits = map (\<lambda>x. NaN) logits"
    using assms by (simp add: softmax_def)
  show ?thesis
  proof (cases "logits = []")
    case True
    then show ?thesis by (simp add: select_def softmax_def multinomial_def)
  next
    case False
    then have "NaN \<in> set (softmax logits)" unfolding sm by (cases logits) simp_all
    moreover have "\<not> valid_prob NaN" by simp
    ultimately have "\<exists>p\<in>set (softmax logits). \<not> valid_prob p" by blast
    then show ?thesis by (simp add: select_def multinomial_def)
  qed
qed

text \<open>
  C5 as stated fails: in deterministic mode a row of negative infinities raises
  nothing, and a token is appended.
\<close>

theorem sampling_error_counterexample:
  "sample (const_model 20 [NegInf, NegInf]) [3] 1 1 False None zero_rng = ([[3]], Inr [3, 0])"
  by (simp add: sample_def const_model_def zero_rng_def x_cond_def next_token_def pluck_def
      transform_def select_def softmax_def topk1_def)

text \<open>
  C5, amended. Let the first \<open>j\<close> steps of a call succeed, and let the transformed
  scores of the next step be a non-empty row of negative infinities.  With sampling
  switched on, that step raises \<^const>\<open>RuntimeError\<close> and the call ends there, however
  many steps were asked for: the last logged forward pass is the one of that step, and
  there is no sequence.  In deterministic mode the step raises nothing and appends a
  token.
\<close>

theorem all_neg_inf_step:
  assumes "sample m x (int j) t smp k rng = (qs, Inr y)"
    and "pluck (forward m (x_cond (get_block_size m - 1) y)) = Inr row"
    and "transform t k row = Inr logits"
    and "logits \<noteq> []" and "\<forall>z\<in>set logits. z = NegInf"
  shows "(smp \<longrightarrow> sample m x (int (j + Suc n)) t smp k rng
                  = (qs @ [x_cond (get_block_size m - 1) y], Inl RuntimeError))
       \<and> (\<not> smp \<longrightarrow> (\<exists>ix. sample m x (int (Suc j)) t smp k rng
                  = (qs @ [x_cond (get_block_size m - 1) y], Inr (y @ [int ix]))))"
proof -
  let ?ctx = "x_cond (get_block_size m - 1) y"
  have d: "decode m t smp k rng j 0 x = (qs, Inr y)"
    using assms(1) by (simp add: sample_def)
  have nt: "next_token t smp k u (forward m ?ctx) = select smp u logits" for u
    using assms(2,3) by (simp add: next_token_def)
  have "sample m x (int (j + Suc n)) t smp k rng = (qs @ [?ctx], Inl RuntimeError)" if smp
  proof -
    have "next_token t smp k (rng j) (forward m ?ctx) = Inl RuntimeError"
      using nt[of "rng j"] select_all_neg_inf[OF assms(5)] that by simp
    then have step: "decode m t smp k rng (Suc n) (0 + j) y = ([?ctx], Inl RuntimeError)"
      by (simp add: Let_def)
    have "decode m t smp k rng (j + Suc n) 0 x
        = (case decode m t smp k rng (Suc n) (0 + j) y of (qs', r) \<Rightarrow> (qs @ qs', r))"
      by (rule decode_add[OF d])
    also have "\<dots> = (qs @ [?ctx], Inl RuntimeError)"
      unfolding step by simp
    finally show ?thesis
      unfolding sample_def by (simp only: nat_int)
  qed
  moreover have "\<exists>ix. sample m x (int (Suc j)) t smp k rng = (qs @ [?ctx], Inr (y @ [int ix]))"
    if "\<not> smp"
  proof -
    from that have f: "smp = False" by simp
    from select_det_nonempty[OF assms(4), of "rng j"] obtain ix where
      "select False (rng j) logits = Inr ix" by blast
    then have "next_token t smp k (rng j) (forward m ?ctx) = Inr ix"
      using nt[of "rng j"] f by simp
    then have step: "decode m t smp k rng (Suc 0) (0 + j) y = ([?ctx], Inr (y @ [int ix]))"
      by (simp add: Let_def)
    have "decode m t smp k rng (j + Suc 0) 0 x
        = (case decode m t smp k rng (Suc 0) (0 + j) y of (qs', r) \<Rightarrow> (qs @ qs', r))"
      by (rule decode_add[OF d])
    also have "\<dots> = (qs @ [?ctx], Inr (y @ [int ix]))"
      unfolding step by simp
    finally have "decode m t smp k rng (Suc j) 0 x = (qs @ [?ctx], Inr (y @ [int ix]))"
      by (simp only: add_Suc_right add_0_right)
    then have "sample m x (int (Suc j)) t smp k rng = (qs @ [?ctx], Inr (y @ [int ix]))"
      unfolding sample_def by (simp only: nat_int)
    then show ?thesis by blast
  qed
  ultimately show ?thesis by blast
qed

theorem all_neg_inf_step_witness:
  "sample (const_model 20 [NegInf, NegInf]) [3] 3 1 True None zero_rng
     = ([[3]], Inl RuntimeError)"
proof -
  let ?m = "const_model 20 [NegInf, NegInf]"
  have a: "sample ?m [3] (int 0) 1 True None zero_rng = ([], Inr [3])"
    by (simp add: sample_def)
  have b: "pluck (forward ?m (x_cond (get_block_size ?m - 1) [3])) = Inr [NegInf, NegInf]"
    by (simp add: const_model_def pluck_def)
  have c: "transform 1 None [NegInf, NegInf] = Inr [NegInf, NegInf]"
    by (simp add: transform_def)
  have e: "[NegInf, NegInf] \<noteq> []" "\<forall>z\<in>set [NegInf, NegInf]. z = NegInf" by simp_all
  from all_neg_inf_step[OF a b c e, of 2] show ?thesis
    by (simp add: const_model_def x_cond_def)
qed

section \<open>Valid configurations\<close>











section \<open>The worked example of the design\<close>

lemma select_det_wf:
  assumes "wf_row zs"
  shows "select False u zs = topk1 zs"
proof -
  from assms have "zs \<noteq> []" by (auto simp: wf_row_def)
  from topk1_is_argmax[OF this] obtain r where r: "topk1 zs = Inr r" "is_argmax zs r"
    by blast
  then have "is_argmax (softmax zs) r" using assms by (simp add: is_argmax_softmax)
  then have "topk1 (softmax zs) = Inr r" by (rule topk1_eqI)
  then show ?thesis using r by (simp add: select_def)
qed

text \<open>
  Vocabulary size 10, seed \<open>[3]\<close>, two steps, deterministic mode, a predictor whose
  score at index 7 is strictly the greatest: the call returns \<open>[3, 7, 7]\<close> after two
  forward passes, on \<open>[3]\<close> and on \<open>[3, 7]\<close>.
\<close>

lemma design_example:
  "sample (const_model 6 [Fin 0, Fin 1, Fin 0, Fin 2, Fin 0, Fin 1, Fin 0, Fin 4, Fin 3, Fin 0])
     [3] 2 1 False None zero_rng
   = ([[3], [3, 7]], Inr [3, 7, 7])"
proof -
  let ?row = "[Fin 0, Fin 1, Fin 0, Fin 2, Fin 0, Fin 1, Fin 0, Fin 4, Fin 3, Fin 0]"
  have "wf_row ?row" by (simp add: wf_row_def)
  then have "select False u ?row = topk1 ?row" for u by (rule select_det_wf)
  then have "select False u ?row = Inr 7" for u
    by (simp add: topk1_def less_score_def)
  then have "next_token 1 False None u [?row] = Inr 7" for u
    by (simp add: next_token_def pluck_def transform_def max_finite_def)
  then show ?thesis
    by (simp add: sample_def const_model_def x_cond_def numeral_2_eq_2)
qed

end
